theory Spec2Isabelle
  imports Main
begin

section \<open>Calls, time and the platform\<close>

text \<open>
  The program of \<^verbatim>\<open>src/main.cpp\<close> drives opaque callables: \<^verbatim>\<open>std::function<void()>\<close>
  tasks, \<^verbatim>\<open>std::function<void(const Event&)>\<close> handlers and the virtual methods
  \<^verbatim>\<open>init\<close> and \<^verbatim>\<open>update\<close> of a component. A callable is embedded as a function on
  the world \<open>'w\<close> (everything a callable can observe or change: component state, the
  output stream, the clock). It either returns or throws; in both cases it leaves a world
  behind. An empty \<^verbatim>\<open>std::function\<close> is the callable that throws at once.

  A callable cannot reach the \<^verbatim>\<open>Scheduler\<close>, the \<^verbatim>\<open>Controller\<close> or the
  \<^verbatim>\<open>EventBus\<close> that invokes it: in the source a task that changed \<^verbatim>\<open>tasks\<close> would
  invalidate the iterator of the running loop, and a handler that re-entered the bus would
  lock the non-recursive mutex it is called under. Calls from other threads are not
  modelled.
\<close>

datatype status = Returned | Threw

type_synonym 'w callable = "'w \<Rightarrow> status \<times> 'w"

text \<open>
  A \<^verbatim>\<open>steady_clock::time_point\<close> and a duration are counts of nanoseconds;
  \<^verbatim>\<open>std::chrono::milliseconds(n)\<close> converts to that unit. The counts and the
  \<^verbatim>\<open>int\<close> arguments are integers without bound here: for an \<^verbatim>\<open>int\<close> period the sum
  \<^verbatim>\<open>now + milliseconds(intervalMs)\<close> stays within 64 bits for every clock reading a
  machine can reach, and the loop counter never passes \<^verbatim>\<open>cycles\<close>. The default
  arguments (\<^verbatim>\<open>intervalMs=1000\<close>, \<^verbatim>\<open>cycles=10\<close>) are values a caller passes.
\<close>

type_synonym time = int

definition milliseconds :: "int \<Rightarrow> int" where
  "milliseconds n = n * 1000000"

text \<open>
  The two library calls the scheduler makes: \<^verbatim>\<open>steady_clock::now()\<close> reads the clock of
  the world, \<^verbatim>\<open>this_thread::sleep_for(d)\<close> lets the world pass.
\<close>

record 'w platform =
  now :: "'w \<Rightarrow> time"
  sleep_for :: "int \<Rightarrow> 'w \<Rightarrow> 'w"

section \<open>Event system\<close>

record Event =
  type :: string
  payload :: string

type_synonym 'w handler = "Event \<Rightarrow> 'w callable"

record 'w EventBus =
  handlers :: "string \<rightharpoonup> 'w handler list"

text \<open>\<^verbatim>\<open>std::map::count\<close> and \<^verbatim>\<open>std::map::operator[]\<close>; the latter inserts an empty
  vector under a key that is absent.\<close>

definition map_count :: "('k \<rightharpoonup> 'v) \<Rightarrow> 'k \<Rightarrow> nat" where
  "map_count m k = (case m k of None \<Rightarrow> 0 | Some v \<Rightarrow> 1)"

definition subscript :: "('k \<rightharpoonup> 'v list) \<Rightarrow> 'k \<Rightarrow> ('k \<rightharpoonup> 'v list) \<times> 'v list" where
  "subscript m k = (case m k of None \<Rightarrow> (m(k \<mapsto> []), []) | Some v \<Rightarrow> (m, v))"

definition registerHandler :: "string \<Rightarrow> 'w handler \<Rightarrow> 'w EventBus \<Rightarrow> 'w EventBus" where
  "registerHandler ty handler bus =
     (case subscript (handlers bus) ty of
        (m, hs) \<Rightarrow> bus\<lparr>handlers := m(ty \<mapsto> hs @ [handler])\<rparr>)"

text \<open>The loop \<^verbatim>\<open>for(auto& h : handlers[evt.type]) h(evt);\<close> an exception leaves it.\<close>

fun call_handlers :: "'w handler list \<Rightarrow> Event \<Rightarrow> 'w callable" where
  "call_handlers [] evt w = (Returned, w)"
| "call_handlers (h # hs) evt w =
     (case h evt w of
        (Threw, w') \<Rightarrow> (Threw, w')
      | (Returned, w') \<Rightarrow> call_handlers hs evt w')"

definition emit :: "Event \<Rightarrow> 'w EventBus \<Rightarrow> 'w \<Rightarrow> status \<times> 'w EventBus \<times> 'w" where
  "emit evt bus w =
     (if map_count (handlers bus) (type evt) \<noteq> 0 then
        (case subscript (handlers bus) (type evt) of
           (m, hs) \<Rightarrow>
             (case call_handlers hs evt w of
                (st, w') \<Rightarrow> (st, bus\<lparr>handlers := m\<rparr>, w')))
      else (Returned, bus, w))"

section \<open>Components\<close>

text \<open>An object of a class derived from \<^verbatim>\<open>Component\<close>: its identity (the address the
  \<^verbatim>\<open>shared_ptr\<close> holds) and the bodies its two virtual methods dispatch to.\<close>

record 'w Component =
  cid :: nat
  init :: "'w callable"
  update :: "'w callable"

section \<open>Task scheduler\<close>

record 'w Task =
  func :: "'w callable"
  intervalMs :: int
  nextRun :: time

record 'w Scheduler =
  tasks :: "'w Task list"

definition addTask :: "'w platform \<Rightarrow> 'w callable \<Rightarrow> int \<Rightarrow> 'w Scheduler \<Rightarrow> 'w \<Rightarrow> 'w Scheduler" where
  "addTask P f ms s w =
     s\<lparr>tasks := tasks s @ [\<lparr>func = f, intervalMs = ms, nextRun = now P w\<rparr>]\<rparr>"

text \<open>The assignment \<^verbatim>\<open>t.nextRun = now + std::chrono::milliseconds(t.intervalMs)\<close>.\<close>

definition reschedule :: "time \<Rightarrow> 'w Task \<Rightarrow> 'w Task" where
  "reschedule n t = t\<lparr>nextRun := n + milliseconds (intervalMs t)\<rparr>"

text \<open>The inner loop \<^verbatim>\<open>for(auto& t : tasks)\<close> of \<^verbatim>\<open>run\<close>, for the sample \<open>n\<close> of the
  clock. The records are updated in place, so the ones already passed keep their new due
  time when a later action throws.\<close>

fun run_tasks :: "time \<Rightarrow> 'w Task list \<Rightarrow> 'w \<Rightarrow> status \<times> 'w Task list \<times> 'w" where
  "run_tasks n [] w = (Returned, [], w)"
| "run_tasks n (t # ts) w =
     (if n \<ge> nextRun t then
        (case func t w of
           (Threw, w') \<Rightarrow> (Threw, t # ts, w')
         | (Returned, w') \<Rightarrow>
             (case run_tasks n ts w' of
                (st, ts', w'') \<Rightarrow> (st, reschedule n t # ts', w'')))
      else
        (case run_tasks n ts w of
           (st, ts', w') \<Rightarrow> (st, t # ts', w')))"

text \<open>One iteration of the outer loop: sample the clock, run the due tasks, sleep 50 ms.\<close>

definition tick :: "'w platform \<Rightarrow> 'w Scheduler \<Rightarrow> 'w \<Rightarrow> status \<times> 'w Scheduler \<times> 'w" where
  "tick P s w =
     (case run_tasks (now P w) (tasks s) w of
        (Threw, ts', w') \<Rightarrow> (Threw, s\<lparr>tasks := ts'\<rparr>, w')
      | (Returned, ts', w') \<Rightarrow>
          (Returned, s\<lparr>tasks := ts'\<rparr>, sleep_for P (milliseconds 50) w'))"

text \<open>The outer loop \<^verbatim>\<open>for(int i=0;i<cycles;i++)\<close>, entered with the counter at \<open>i\<close>.\<close>

function run_loop ::
  "'w platform \<Rightarrow> int \<Rightarrow> int \<Rightarrow> 'w Scheduler \<Rightarrow> 'w \<Rightarrow> status \<times> 'w Scheduler \<times> 'w" where
  "run_loop P i cycles s w =
     (if i < cycles then
        (case tick P s w of
           (Threw, s', w') \<Rightarrow> (Threw, s', w')
         | (Returned, s', w') \<Rightarrow> run_loop P (i + 1) cycles s' w')
      else (Returned, s, w))"
  by pat_completeness auto
termination
  by (relation "measure (\<lambda>(P, i, cycles, s, w). nat (cycles - i))") auto

definition run :: "'w platform \<Rightarrow> int \<Rightarrow> 'w Scheduler \<Rightarrow> 'w \<Rightarrow> status \<times> 'w Scheduler \<times> 'w" where
  "run P cycles s w = run_loop P 0 cycles s w"

section \<open>Controller\<close>

record 'w Controller =
  components :: "'w Component list"
  scheduler :: "'w Scheduler"

text \<open>The task registered for a component is the closure \<^verbatim>\<open>[c](){ c->update(); }\<close>.\<close>

definition addComponent ::
  "'w platform \<Rightarrow> 'w Component \<Rightarrow> int \<Rightarrow> 'w Controller \<Rightarrow> 'w \<Rightarrow> status \<times> 'w Controller \<times> 'w" where
  "addComponent P c ms ctl w =
     (case init c w of
        (Threw, w') \<Rightarrow> (Threw, ctl, w')
      | (Returned, w') \<Rightarrow>
          (Returned,
           ctl\<lparr>components := components ctl @ [c],
               scheduler := addTask P (\<lambda>w. update c w) ms (scheduler ctl) w'\<rparr>,
           w'))"

definition Controller_run ::
  "'w platform \<Rightarrow> int \<Rightarrow> 'w Controller \<Rightarrow> 'w \<Rightarrow> status \<times> 'w Controller \<times> 'w" where
  "Controller_run P cycles ctl w =
     (case run P cycles (scheduler ctl) w of
        (st, s', w') \<Rightarrow> (st, ctl\<lparr>scheduler := s'\<rparr>, w'))"

declare run_loop.simps [simp del]

section \<open>Notions used to state the properties\<close>

text \<open>The handlers registered for a type, in registration order; none for an absent key.\<close>

definition registered :: "'w EventBus \<Rightarrow> string \<Rightarrow> 'w handler list" where
  "registered bus ty = (case handlers bus ty of None \<Rightarrow> [] | Some hs \<Rightarrow> hs)"

text \<open>Calling a sequence of callables one after the other, each once, each on the world
  its predecessor left; a throw ends the sequence.\<close>

fun seq_calls :: "'w callable list \<Rightarrow> 'w callable" where
  "seq_calls [] w = (Returned, w)"
| "seq_calls (f # fs) w =
     (case f w of
        (Threw, w') \<Rightarrow> (Threw, w')
      | (Returned, w') \<Rightarrow> seq_calls fs w')"

text \<open>A tick iteration as a step on the result of the previous one: no further tick is
  performed once an exception has left the loop.\<close>

fun tick_step ::
  "'w platform \<Rightarrow> status \<times> 'w Scheduler \<times> 'w \<Rightarrow> status \<times> 'w Scheduler \<times> 'w" where
  "tick_step P (Returned, s, w) = tick P s w"
| "tick_step P (Threw, s, w) = (Threw, s, w)"

subsection \<open>Observing the calls made on components\<close>

text \<open>
  To speak about the order and number of calls, a callable is wrapped so that every call
  of it is recorded in a log kept beside the world. The wrapped callable behaves on the
  world as the original does, and the original cannot see the log. The platform is lifted
  to the pair likewise.
\<close>

datatype call = InitCall nat | UpdateCall nat

definition logged :: "'l \<Rightarrow> 'w callable \<Rightarrow> ('w \<times> 'l list) callable" where
  "logged l f = (\<lambda>(w, L). case f w of (st, w') \<Rightarrow> (st, (w', L @ [l])))"

definition traced :: "'w Component \<Rightarrow> ('w \<times> call list) Component" where
  "traced c =
     \<lparr>cid = cid c,
      init = logged (InitCall (cid c)) (init c),
      update = logged (UpdateCall (cid c)) (update c)\<rparr>"

definition observed :: "'w platform \<Rightarrow> ('w \<times> 'l list) platform" where
  "observed P =
     \<lparr>now = (\<lambda>(w, L). now P w),
      sleep_for = (\<lambda>d (w, L). (sleep_for P d w, L))\<rparr>"

text \<open>
  A client of a \<^verbatim>\<open>Controller\<close> makes a sequence of calls of its two public methods, as
  \<^verbatim>\<open>main\<close> does. A client that catches an exception goes on with the controller as
  the failed call left it; one that does not stops, which is a shorter sequence.
\<close>

datatype 'w request = AddComponent "'w Component" int | Run int

fun serve :: "'w platform \<Rightarrow> 'w request \<Rightarrow> 'w Controller \<times> 'w \<Rightarrow> 'w Controller \<times> 'w" where
  "serve P (AddComponent c ms) (ctl, w) = snd (addComponent P c ms ctl w)"
| "serve P (Run cycles) (ctl, w) = snd (Controller_run P cycles ctl w)"

definition fresh :: "'w Controller" where
  "fresh = \<lparr>components = [], scheduler = \<lparr>tasks = []\<rparr>\<rparr>"

definition session :: "'w platform \<Rightarrow> 'w request list \<Rightarrow> 'w \<Rightarrow> 'w Controller \<times> 'w" where
  "session P rs w = foldl (\<lambda>x r. serve P r x) (fresh, w) rs"

fun traced_request :: "'w request \<Rightarrow> ('w \<times> call list) request" where
  "traced_request (AddComponent c ms) = AddComponent (traced c) ms"
| "traced_request (Run cycles) = Run cycles"

definition call_log :: "'w platform \<Rightarrow> 'w request list \<Rightarrow> 'w \<Rightarrow> call list" where
  "call_log P rs w = snd (snd (session (observed P) (map traced_request rs) (w, [])))"

fun adds :: "nat \<Rightarrow> 'w request \<Rightarrow> bool" where
  "adds x (AddComponent c ms) = (cid c = x)"
| "adds x (Run cycles) = False"

text \<open>Properties of the call log used in the proofs: the tasks of the controller are
  logged \<^verbatim>\<open>update\<close> calls of components whose \<^verbatim>\<open>init\<close> is in the log; a piece of
  log holds only such calls; every \<^verbatim>\<open>update\<close> in the log has an \<^verbatim>\<open>init\<close> of its
  component before it.\<close>

definition update_funcs :: "call list \<Rightarrow> ('w \<times> call list) callable list \<Rightarrow> bool" where
  "update_funcs L fs =
     (\<forall>f \<in> set fs. \<exists>x g. f = logged (UpdateCall x) g \<and> InitCall x \<in> set L)"

definition only_updates :: "call list \<Rightarrow> call list \<Rightarrow> bool" where
  "only_updates L M = (\<forall>l \<in> set M. \<exists>x. l = UpdateCall x \<and> InitCall x \<in> set L)"

definition init_first :: "call list \<Rightarrow> bool" where
  "init_first L =
     (\<forall>i < length L. \<forall>x. L ! i = UpdateCall x \<longrightarrow> InitCall x \<in> set (take i L))"

text \<open>An observed task or controller and the one it observes: the same periods and due
  times, the same components, each action wrapped by \<open>logged\<close>.\<close>

definition same_task :: "('w \<times> 'l list) Task \<Rightarrow> 'w Task \<Rightarrow> bool" where
  "same_task tT t =
     (intervalMs tT = intervalMs t \<and> nextRun tT = nextRun t
      \<and> (\<exists>l. func tT = logged l (func t)))"

definition same_controller :: "('w \<times> call list) Controller \<Rightarrow> 'w Controller \<Rightarrow> bool" where
  "same_controller cT c =
     (components cT = map traced (components c)
      \<and> list_all2 same_task (tasks (scheduler cT)) (tasks (scheduler c)))"

subsection \<open>The example schedule\<close>

text \<open>
  The timing the example of the specification assumes: the world is the clock alone, a
  sleep of \<open>d\<close> takes exactly \<open>d\<close>, and the calls of the stub components take no time.
\<close>

definition ideal :: "time platform" where
  "ideal = \<lparr>now = (\<lambda>t. t), sleep_for = (\<lambda>d t. t + d)\<rparr>"

definition stub :: "nat \<Rightarrow> time Component" where
  "stub x = \<lparr>cid = x, init = (\<lambda>t. (Returned, t)), update = (\<lambda>t. (Returned, t))\<rparr>"

text \<open>The calls of \<^verbatim>\<open>main\<close> on the controller, for a run of \<open>cycles\<close> ticks: component
  \<open>0\<close> every 500 ms, component \<open>1\<close> every 700 ms.\<close>

definition example :: "int \<Rightarrow> time request list" where
  "example cycles = [AddComponent (stub 0) 500, AddComponent (stub 1) 700, Run cycles]"

section \<open>Event bus: properties\<close>

lemma call_handlers_append:
  "call_handlers (hs @ hs') evt w =
     (case call_handlers hs evt w of
        (Threw, w') \<Rightarrow> (Threw, w')
      | (Returned, w') \<Rightarrow> call_handlers hs' evt w')"
  by (induction hs arbitrary: w) (auto split: prod.splits status.splits)

lemma registered_registerHandler:
  "registered (registerHandler ty h bus) ty' =
     (if ty' = ty then registered bus ty @ [h] else registered bus ty')"
  by (simp add: registered_def registerHandler_def subscript_def split: option.splits)

lemma emit_registered:
  "emit evt bus w =
     (case call_handlers (registered bus (type evt)) evt w of (st, w') \<Rightarrow> (st, bus, w'))"
  by (simp add: emit_def registered_def map_count_def subscript_def split: option.splits)

text \<open>
  C6. Emitting an event whose type has no registered handler (the key is absent, or holds
  an empty sequence) does nothing: the call returns normally, and the world and the bus
  are as before, so no handler ran and nothing was thrown.
\<close>

theorem emit_without_handlers:
  "registered bus (type evt) = [] \<Longrightarrow> emit evt bus w = (Returned, bus, w)"
  by (simp add: emit_registered)

theorem emit_without_handlers_witness:
  "registered (\<lparr>handlers = Map.empty\<rparr> :: nat EventBus) (type \<lparr>type = ''ALERT'', payload = ''x''\<rparr>) = []
   \<and> emit \<lparr>type = ''ALERT'', payload = ''x''\<rparr> \<lparr>handlers = Map.empty\<rparr> (0::nat)
       = (Returned, \<lparr>handlers = Map.empty\<rparr>, 0)"
proof -
  let ?bus = "\<lparr>handlers = Map.empty\<rparr> :: nat EventBus"
  let ?evt = "\<lparr>type = ''ALERT'', payload = ''x''\<rparr>"
  have h: "registered ?bus (type ?evt) = []"
    by (simp add: registered_def)
  from h emit_without_handlers [OF h, of 0] show ?thesis by simp
qed

text \<open>
  C10. \<^verbatim>\<open>emit\<close> leaves the registry as it was, for every event and whatever the
  handlers do: the same keys, the same handler sequence under each, and no entry for a
  type that had none (the guard \<^verbatim>\<open>handlers.count(evt.type)\<close> keeps \<^verbatim>\<open>operator[]\<close> from
  inserting one).
\<close>

theorem emit_keeps_registry:
  "fst (snd (emit evt bus w)) = bus
   \<and> dom (handlers (fst (snd (emit evt bus w)))) = dom (handlers bus)
   \<and> (handlers bus (type evt) = None
        \<longrightarrow> handlers (fst (snd (emit evt bus w))) (type evt) = None)"
  by (simp add: emit_registered split: prod.splits)

theorem emit_keeps_registry_witness:
  "fst (snd (emit \<lparr>type = ''ALERT'', payload = ''x''\<rparr> \<lparr>handlers = Map.empty\<rparr> (0::nat)))
     = \<lparr>handlers = Map.empty\<rparr>
   \<and> handlers (fst (snd (emit \<lparr>type = ''ALERT'', payload = ''x''\<rparr>
         \<lparr>handlers = Map.empty\<rparr> (0::nat)))) ''ALERT'' = None"
  using emit_keeps_registry [of "\<lparr>type = ''ALERT'', payload = ''x''\<rparr>"
      "\<lparr>handlers = Map.empty\<rparr>" "0::nat"]
  by simp

text \<open>
  C5. After two handlers \<open>h1\<close>, \<open>h2\<close> are registered for the type of an event, emitting
  the event calls the handlers registered before them, then \<open>h1\<close> on the event, then
  \<open>h2\<close> on the event, each once and each on the world its predecessor left. The only
  way a handler is skipped is an exception of an earlier one, which leaves \<^verbatim>\<open>emit\<close>.
\<close>

theorem emit_two_handlers:
  "emit evt (registerHandler (type evt) h2 (registerHandler (type evt) h1 bus)) w =
     (case call_handlers (registered bus (type evt)) evt w of
        (Threw, w0) \<Rightarrow>
          (Threw, registerHandler (type evt) h2 (registerHandler (type evt) h1 bus), w0)
      | (Returned, w0) \<Rightarrow>
          (case h1 evt w0 of
             (Threw, w1) \<Rightarrow>
               (Threw, registerHandler (type evt) h2 (registerHandler (type evt) h1 bus), w1)
           | (Returned, w1) \<Rightarrow>
               (case h2 evt w1 of
                  (st, w2) \<Rightarrow>
                    (st, registerHandler (type evt) h2 (registerHandler (type evt) h1 bus),
                     w2))))"
  by (simp add: emit_registered registered_registerHandler call_handlers_append
      split: prod.splits status.splits)

text \<open>Two handlers that record their name and the event they receive, on a bus without
  handlers: the record after one \<^verbatim>\<open>emit\<close> holds each once, in registration order.\<close>

theorem emit_two_handlers_witness:
  "fst (emit \<lparr>type = ''ALERT'', payload = ''hot''\<rparr>
      (registerHandler ''ALERT'' (\<lambda>e w. (Returned, w @ [(''second'', e)]))
        (registerHandler ''ALERT'' (\<lambda>e w. (Returned, w @ [(''first'', e)]))
          \<lparr>handlers = Map.empty\<rparr>)) []) = Returned
   \<and> snd (snd (emit \<lparr>type = ''ALERT'', payload = ''hot''\<rparr>
      (registerHandler ''ALERT'' (\<lambda>e w. (Returned, w @ [(''second'', e)]))
        (registerHandler ''ALERT'' (\<lambda>e w. (Returned, w @ [(''first'', e)]))
          \<lparr>handlers = Map.empty\<rparr>)) []))
     = [(''first'', \<lparr>type = ''ALERT'', payload = ''hot''\<rparr>),
        (''second'', \<lparr>type = ''ALERT'', payload = ''hot''\<rparr>)]"
  using emit_two_handlers [of "\<lparr>type = ''ALERT'', payload = ''hot''\<rparr>"
      "\<lambda>e w. (Returned, w @ [(''second'', e)])" "\<lambda>e w. (Returned, w @ [(''first'', e)])"
      "\<lparr>handlers = Map.empty\<rparr>" "[]"]
  by (simp add: registered_def)

section \<open>Scheduler: properties\<close>

lemma run_tasks_calls:
  "run_tasks n ts w = (st, ts', w') \<Longrightarrow>
     seq_calls (map func (filter (\<lambda>t. nextRun t \<le> n) ts)) w = (st, w')"
  by (induction ts arbitrary: w st ts' w') (auto split: prod.splits status.splits if_splits)

lemma run_tasks_returned:
  "run_tasks n ts w = (Returned, ts', w') \<Longrightarrow>
     ts' = map (\<lambda>t. if nextRun t \<le> n then reschedule n t else t) ts"
  by (induction ts arbitrary: w ts') (auto split: prod.splits status.splits if_splits)

lemma run_tasks_frame:
  "run_tasks n ts w = (st, ts', w') \<Longrightarrow>
     map func ts' = map func ts \<and> map intervalMs ts' = map intervalMs ts"
  by (induction ts arbitrary: w st ts' w')
    (auto simp: reschedule_def split: prod.splits status.splits if_splits)

lemma run_tasks_append:
  "run_tasks n (ts1 @ ts2) w =
     (case run_tasks n ts1 w of
        (Threw, ts1', w') \<Rightarrow> (Threw, ts1' @ ts2, w')
      | (Returned, ts1', w') \<Rightarrow>
          (case run_tasks n ts2 w' of (st, ts2', w'') \<Rightarrow> (st, ts1' @ ts2', w'')))"
  by (induction ts1 arbitrary: w) (auto split: prod.splits status.splits)

lemma tick_frame:
  "tick P s w = (st, s', w') \<Longrightarrow>
     map func (tasks s') = map func (tasks s)
     \<and> map intervalMs (tasks s') = map intervalMs (tasks s)"
  by (auto simp: tick_def split: prod.splits status.splits dest: run_tasks_frame)

lemma run_loop_frame:
  "run_loop P i cycles s w = (st, s', w') \<Longrightarrow>
     map func (tasks s') = map func (tasks s)
     \<and> map intervalMs (tasks s') = map intervalMs (tasks s)"
proof (induction P i cycles s w rule: run_loop.induct)
  case (1 P i cycles s w)
  show ?case
  proof (cases "i < cycles")
    case False
    with "1.prems" show ?thesis by (simp add: run_loop.simps)
  next
    case True
    obtain st1 s1 w1 where t: "tick P s w = (st1, s1, w1)"
      by (cases "tick P s w") auto
    note f = tick_frame [OF t]
    show ?thesis
    proof (cases st1)
      case Threw
      with True t f "1.prems" show ?thesis by (simp add: run_loop.simps [of P i])
    next
      case Returned
      with True t "1.prems" have "run_loop P (i + 1) cycles s1 w1 = (st, s', w')"
        by (simp add: run_loop.simps [of P i])
      from "1.IH" [OF True t [symmetric] Returned refl this] f show ?thesis by simp
    qed
  qed
qed

lemma tick_step_Threw: "(tick_step P ^^ k) (Threw, s, w) = (Threw, s, w)"
  by (induction k) auto

lemma run_loop_funpow:
  "run_loop P i cycles s w = (tick_step P ^^ nat (cycles - i)) (Returned, s, w)"
proof (induction P i cycles s w rule: run_loop.induct)
  case (1 P i cycles s w)
  show ?case
  proof (cases "i < cycles")
    case False
    then show ?thesis by (simp add: run_loop.simps)
  next
    case True
    then have n: "nat (cycles - i) = Suc (nat (cycles - (i + 1)))" by simp
    obtain st s' w' where t: "tick P s w = (st, s', w')"
      by (cases "tick P s w") auto
    show ?thesis
    proof (cases st)
      case Threw
      with True t show ?thesis
        by (simp add: run_loop.simps [of P i] n funpow_Suc_right tick_step_Threw
            del: funpow.simps)
    next
      case Returned
      with "1.IH" [OF True t [symmetric] Returned refl] t True show ?thesis
        by (simp add: run_loop.simps [of P i] n funpow_Suc_right del: funpow.simps)
    qed
  qed
qed

lemma run_tasks_records:
  "run_tasks n ts w = (st, ts', w') \<Longrightarrow>
     \<exists>k \<le> length ts.
        ts' = map (\<lambda>t. if nextRun t \<le> n then t\<lparr>nextRun := n + milliseconds (intervalMs t)\<rparr> else t)
                (take k ts) @ drop k ts
        \<and> (st = Returned \<longrightarrow> k = length ts)
        \<and> (st = Threw \<longrightarrow> k < length ts \<and> nextRun (ts ! k) \<le> n
             \<and> (\<exists>wk. seq_calls (map func (filter (\<lambda>t. nextRun t \<le> n) (take k ts))) w
                        = (Returned, wk)
                   \<and> func (ts ! k) wk = (Threw, w')))"
proof (induction ts arbitrary: w st ts' w')
  case Nil
  then show ?case by auto
next
  case (Cons t ts)
  let ?R = "\<lambda>t. if nextRun t \<le> n then t\<lparr>nextRun := n + milliseconds (intervalMs t)\<rparr> else t"
  show ?case
  proof (cases "nextRun t \<le> n")
    case False
    with Cons.prems obtain ts1 where
      r: "run_tasks n ts w = (st, ts1, w')" and t: "ts' = t # ts1"
      by (auto split: prod.splits)
    from Cons.IH [OF r] obtain k where k: "k \<le> length ts"
      "ts1 = map ?R (take k ts) @ drop k ts"
      "st = Returned \<longrightarrow> k = length ts"
      "st = Threw \<longrightarrow> k < length ts \<and> nextRun (ts ! k) \<le> n
             \<and> (\<exists>wk. seq_calls (map func (filter (\<lambda>t. nextRun t \<le> n) (take k ts))) w
                        = (Returned, wk)
                   \<and> func (ts ! k) wk = (Threw, w'))"
      by blast
    with False t show ?thesis
      by (intro exI [of _ "Suc k"]) simp
  next
    case True
    obtain st1 w1 where c: "func t w = (st1, w1)" by (cases "func t w") auto
    show ?thesis
    proof (cases st1)
      case Threw
      with True c Cons.prems show ?thesis
        by (intro exI [of _ 0]) auto
    next
      case Returned
      with True c Cons.prems obtain ts1 where
        r: "run_tasks n ts w1 = (st, ts1, w')" and t: "ts' = reschedule n t # ts1"
        by (auto split: prod.splits)
      from Cons.IH [OF r] obtain k where k: "k \<le> length ts"
        "ts1 = map ?R (take k ts) @ drop k ts"
        "st = Returned \<longrightarrow> k = length ts"
        "st = Threw \<longrightarrow> k < length ts \<and> nextRun (ts ! k) \<le> n
             \<and> (\<exists>wk. seq_calls (map func (filter (\<lambda>t. nextRun t \<le> n) (take k ts))) w1
                        = (Returned, wk)
                   \<and> func (ts ! k) wk = (Threw, w'))"
        by blast
      with True Returned c t show ?thesis
        by (intro exI [of _ "Suc k"]) (simp add: reschedule_def)
    qed
  qed
qed

lemma run_split:
  assumes "0 \<le> i" and "i \<le> cycles" and "run P i s w = (Returned, si, wi)"
  shows "run P cycles s w = run_loop P i cycles si wi"
proof -
  from assms(1,2) have "nat cycles = nat (cycles - i) + nat i" by simp
  then have "run P cycles s w
      = (tick_step P ^^ nat (cycles - i)) ((tick_step P ^^ nat i) (Returned, s, w))"
    by (simp add: run_def run_loop_funpow funpow_add)
  also from assms(3) have "(tick_step P ^^ nat i) (Returned, s, w) = (Returned, si, wi)"
    by (simp add: run_def run_loop_funpow)
  finally show ?thesis by (simp add: run_loop_funpow)
qed

lemma run_loop_one:
  "run_loop P i (i + 1) s w = tick P s w"
  by (cases "tick P s w")
    (auto simp: run_loop.simps [of P i] run_loop.simps [of P "i + 1"] split: status.splits)


lemma tick_effect:
  "tick P s w = (st, s', w') \<Longrightarrow>
     (case seq_calls (map func (filter (\<lambda>t. nextRun t \<le> now P w) (tasks s))) w of
        (Threw, w1) \<Rightarrow> st = Threw \<and> w' = w1
      | (Returned, w1) \<Rightarrow> st = Returned \<and> w' = sleep_for P (milliseconds 50) w1)
     \<and> (st = Returned \<longrightarrow>
          tasks s' =
            map (\<lambda>t. if nextRun t \<le> now P w
                      then t\<lparr>nextRun := now P w + milliseconds (intervalMs t)\<rparr> else t)
              (tasks s)
          \<and> (\<forall>i < length (tasks s). nextRun (tasks s ! i) \<le> now P w \<longrightarrow>
                (\<forall>n2. nextRun (tasks s' ! i) \<le> n2
                   \<longleftrightarrow> now P w + milliseconds (intervalMs (tasks s ! i)) \<le> n2)))"
proof -
  assume t: "tick P s w = (st, s', w')"
  obtain st1 ts1 w1 where r: "run_tasks (now P w) (tasks s) w = (st1, ts1, w1)"
    by (cases "run_tasks (now P w) (tasks s) w") auto
  note c = run_tasks_calls [OF r]
  have a: "case seq_calls (map func (filter (\<lambda>t. nextRun t \<le> now P w) (tasks s))) w of
        (Threw, w1) \<Rightarrow> st = Threw \<and> w' = w1
      | (Returned, w1) \<Rightarrow> st = Returned \<and> w' = sleep_for P (milliseconds 50) w1"
    using t r c by (cases st1) (auto simp: tick_def)
  have b: "tasks s' =
            map (\<lambda>t. if nextRun t \<le> now P w
                      then t\<lparr>nextRun := now P w + milliseconds (intervalMs t)\<rparr> else t)
              (tasks s)" if "st = Returned"
  proof -
    from that t r have "st1 = Returned" and "tasks s' = ts1"
      by (cases st1; auto simp: tick_def)+
    with run_tasks_returned [of "now P w" "tasks s" w ts1 w1] r show ?thesis
      by (simp add: reschedule_def)
  qed
  show ?thesis using a b by simp
qed

lemma tick_records:
  assumes "tick P s w = (st, s', w')"
  shows "\<exists>k \<le> length (tasks s).
        tasks s' =
          map (\<lambda>t. if nextRun t \<le> now P w
                    then t\<lparr>nextRun := now P w + milliseconds (intervalMs t)\<rparr> else t)
            (take k (tasks s)) @ drop k (tasks s)
        \<and> (st = Returned \<longrightarrow> k = length (tasks s))
        \<and> (st = Threw \<longrightarrow> k < length (tasks s) \<and> nextRun (tasks s ! k) \<le> now P w
             \<and> (\<exists>wk. seq_calls (map func (filter (\<lambda>t. nextRun t \<le> now P w) (take k (tasks s)))) w
                        = (Returned, wk)
                   \<and> func (tasks s ! k) wk = (Threw, w')))"
proof -
  let ?R = "\<lambda>t. if nextRun t \<le> now P w
                    then t\<lparr>nextRun := now P w + milliseconds (intervalMs t)\<rparr> else t"
  obtain st1 ts1 w1 where r: "run_tasks (now P w) (tasks s) w = (st1, ts1, w1)"
    by (cases "run_tasks (now P w) (tasks s) w") auto
  show ?thesis
  proof (cases st1)
    case Threw
    with assms r have "st = Threw" "tasks s' = ts1" "w' = w1"
      by (auto simp: tick_def)
    with r Threw have "run_tasks (now P w) (tasks s) w = (st, tasks s', w')" by simp
    then show ?thesis by (rule run_tasks_records)
  next
    case Returned
    with assms r have e: "st = Returned" "tasks s' = ts1"
      by (auto simp: tick_def)
    from run_tasks_returned [of "now P w" "tasks s" w ts1 w1] r Returned e
    have "tasks s' = map ?R (tasks s)" by (simp add: reschedule_def)
    with e(1) show ?thesis
      by (intro exI [of _ "length (tasks s)"]) simp
  qed
qed

text \<open>
  C1. Take any tick of \<^verbatim>\<open>run(cycles)\<close>, the one with loop counter \<open>i\<close>: it starts
  from the scheduler \<open>si\<close> and world \<open>wi\<close> that \<open>i\<close> ticks leave (the result of
  \<^verbatim>\<open>run(i)\<close>) and leaves what \<^verbatim>\<open>run(i + 1)\<close> returns, and \<^verbatim>\<open>run(cycles)\<close> goes on
  from there with counter \<open>i + 1\<close>. The tick samples the clock once, at \<open>now P wi\<close>.
  Its effect on the world is that of calling, in registration order and once each, the
  actions of exactly the records whose due time is at or before the sample (then the
  50 ms sleep, unless an action threw). Every record whose action was called and returned
  has its due time set to the sample plus its period, whatever its due time was; the
  other records are untouched: all records are treated so when the tick returns, the
  records before the one whose action threw otherwise. So a record that ran at sample
  \<open>n\<close> is due again exactly at the samples from \<open>n\<close> plus its period on: a late tick
  runs it once and moves its next run later; nothing is caught up.
\<close>

theorem run_ticks_run_due_tasks:
  assumes "0 \<le> i" and "i < cycles"
    and "run P i s w = (Returned, si, wi)"
    and "run P (i + 1) s w = (st, s', w')"
  shows "run P cycles s w =
       (case st of Threw \<Rightarrow> (Threw, s', w') | Returned \<Rightarrow> run_loop P (i + 1) cycles s' w')
     \<and> (case seq_calls (map func (filter (\<lambda>t. nextRun t \<le> now P wi) (tasks si))) wi of
          (Threw, w1) \<Rightarrow> st = Threw \<and> w' = w1
        | (Returned, w1) \<Rightarrow> st = Returned \<and> w' = sleep_for P (milliseconds 50) w1)
     \<and> (\<exists>k \<le> length (tasks si).
          tasks s' =
            map (\<lambda>t. if nextRun t \<le> now P wi
                      then t\<lparr>nextRun := now P wi + milliseconds (intervalMs t)\<rparr> else t)
              (take k (tasks si)) @ drop k (tasks si)
          \<and> (st = Returned \<longrightarrow> k = length (tasks si))
          \<and> (st = Threw \<longrightarrow> k < length (tasks si) \<and> nextRun (tasks si ! k) \<le> now P wi
               \<and> (\<exists>wk. seq_calls
                           (map func (filter (\<lambda>t. nextRun t \<le> now P wi) (take k (tasks si)))) wi
                          = (Returned, wk)
                     \<and> func (tasks si ! k) wk = (Threw, w'))))
     \<and> (st = Returned \<longrightarrow>
          tasks s' =
            map (\<lambda>t. if nextRun t \<le> now P wi
                      then t\<lparr>nextRun := now P wi + milliseconds (intervalMs t)\<rparr> else t)
              (tasks si)
          \<and> (\<forall>j < length (tasks si). nextRun (tasks si ! j) \<le> now P wi \<longrightarrow>
                (\<forall>n2. nextRun (tasks s' ! j) \<le> n2
                   \<longleftrightarrow> now P wi + milliseconds (intervalMs (tasks si ! j)) \<le> n2)))"
proof -
  from assms(2) have le: "i \<le> i + 1" "i \<le> cycles" by simp_all
  from run_split [OF assms(1) le(1) assms(3)] assms(4)
  have t: "tick P si wi = (st, s', w')" by (simp add: run_loop_one)
  from run_split [OF assms(1) le(2) assms(3)] assms(2) t
  have a: "run P cycles s w =
       (case st of Threw \<Rightarrow> (Threw, s', w') | Returned \<Rightarrow> run_loop P (i + 1) cycles s' w')"
    by (simp add: run_loop.simps [of P i] split: status.splits)
  note b = tick_effect [OF t, THEN conjunct1]
  note c = tick_records [OF t]
  note d = tick_effect [OF t, THEN conjunct2]
  from a b c d show ?thesis by (rule conjI [OF _ conjI [OF _ conjI]])
qed


text \<open>Two records on a clock that starts at 5 ns; the second record is first due on the
  second tick. The tick with counter 1 of a run of 3 cycles calls its action alone and
  moves its due time to the sample plus 700 ms.\<close>

theorem run_ticks_run_due_tasks_witness:
  "(0::int) \<le> 1 \<and> (1::int) < 3
   \<and> fst (run (observed ideal) 1
      \<lparr>tasks = [\<lparr>func = logged ''a'' (\<lambda>t. (Returned, t)), intervalMs = 500, nextRun = 3\<rparr>,
                \<lparr>func = logged ''b'' (\<lambda>t. (Returned, t)), intervalMs = 700, nextRun = 20000000\<rparr>]\<rparr>
      (5, [])) = Returned
   \<and> snd (snd (run (observed ideal) 1
      \<lparr>tasks = [\<lparr>func = logged ''a'' (\<lambda>t. (Returned, t)), intervalMs = 500, nextRun = 3\<rparr>,
                \<lparr>func = logged ''b'' (\<lambda>t. (Returned, t)), intervalMs = 700, nextRun = 20000000\<rparr>]\<rparr>
      (5, []))) = (50000005, [''a''])
   \<and> map nextRun (tasks (fst (snd (run (observed ideal) 1
      \<lparr>tasks = [\<lparr>func = logged ''a'' (\<lambda>t. (Returned, t)), intervalMs = 500, nextRun = 3\<rparr>,
                \<lparr>func = logged ''b'' (\<lambda>t. (Returned, t)), intervalMs = 700, nextRun = 20000000\<rparr>]\<rparr>
      (5, []))))) = [500000005, 20000000]
   \<and> fst (run (observed ideal) 2
      \<lparr>tasks = [\<lparr>func = logged ''a'' (\<lambda>t. (Returned, t)), intervalMs = 500, nextRun = 3\<rparr>,
                \<lparr>func = logged ''b'' (\<lambda>t. (Returned, t)), intervalMs = 700, nextRun = 20000000\<rparr>]\<rparr>
      (5, [])) = Returned
   \<and> snd (snd (run (observed ideal) 2
      \<lparr>tasks = [\<lparr>func = logged ''a'' (\<lambda>t. (Returned, t)), intervalMs = 500, nextRun = 3\<rparr>,
                \<lparr>func = logged ''b'' (\<lambda>t. (Returned, t)), intervalMs = 700, nextRun = 20000000\<rparr>]\<rparr>
      (5, []))) = (100000005, [''a'', ''b''])
   \<and> map nextRun (tasks (fst (snd (run (observed ideal) 2
      \<lparr>tasks = [\<lparr>func = logged ''a'' (\<lambda>t. (Returned, t)), intervalMs = 500, nextRun = 3\<rparr>,
                \<lparr>func = logged ''b'' (\<lambda>t. (Returned, t)), intervalMs = 700, nextRun = 20000000\<rparr>]\<rparr>
      (5, []))))) = [500000005, 750000005]
   \<and> snd (snd (run (observed ideal) 3
      \<lparr>tasks = [\<lparr>func = logged ''a'' (\<lambda>t. (Returned, t)), intervalMs = 500, nextRun = 3\<rparr>,
                \<lparr>func = logged ''b'' (\<lambda>t. (Returned, t)), intervalMs = 700, nextRun = 20000000\<rparr>]\<rparr>
      (5, []))) = (150000005, [''a'', ''b''])"
proof -
  let ?P = "observed ideal :: (time \<times> string list) platform"
  let ?a = "logged ''a'' (\<lambda>t. (Returned, t)) :: (time \<times> string list) callable"
  let ?b = "logged ''b'' (\<lambda>t. (Returned, t)) :: (time \<times> string list) callable"
  let ?s = "\<lparr>tasks = [\<lparr>func = ?a, intervalMs = 500, nextRun = 3\<rparr>,
                      \<lparr>func = ?b, intervalMs = 700, nextRun = 20000000\<rparr>]\<rparr>"
  let ?s1 = "\<lparr>tasks = [\<lparr>func = ?a, intervalMs = 500, nextRun = 500000005\<rparr>,
                       \<lparr>func = ?b, intervalMs = 700, nextRun = 20000000\<rparr>]\<rparr>"
  let ?s2 = "\<lparr>tasks = [\<lparr>func = ?a, intervalMs = 500, nextRun = 500000005\<rparr>,
                       \<lparr>func = ?b, intervalMs = 700, nextRun = 750000005\<rparr>]\<rparr>"
  have h1: "(0::int) \<le> 1" and h2: "(1::int) < 3" by simp_all
  have h3: "run ?P 1 ?s (5, []) = (Returned, ?s1, (50000005, [''a'']))"
    by (simp add: run_def run_loop.simps tick_def observed_def ideal_def logged_def
        reschedule_def milliseconds_def)
  have h4: "run ?P (1 + 1) ?s (5, []) = (Returned, ?s2, (100000005, [''a'', ''b'']))"
    by (simp add: run_def run_loop.simps tick_def observed_def ideal_def logged_def
        reschedule_def milliseconds_def)
  from run_ticks_run_due_tasks [OF h1 h2 h3 h4]
  have "run ?P 3 ?s (5, []) = run_loop ?P (1 + 1) 3 ?s2 (100000005, [''a'', ''b''])"
    by simp
  then have h5: "run ?P 3 ?s (5, []) = (Returned, ?s2, (150000005, [''a'', ''b'']))"
    by (simp add: run_loop.simps tick_def observed_def ideal_def logged_def
        reschedule_def milliseconds_def)
  from h3 h4 h5 show ?thesis by simp
qed

text \<open>
  C7. \<^verbatim>\<open>run(cycles)\<close> is a total function of its arguments, and its result is that of
  iterating the tick \<open>cycles\<close> times from the given state (no times for a count that is
  not positive), where a tick is not performed once an exception has left the loop.
  \<^verbatim>\<open>run(0)\<close> returns at once with scheduler and world as they were.
\<close>

theorem run_performs_cycles_ticks:
  "run P cycles s w = (tick_step P ^^ nat cycles) (Returned, s, w)
   \<and> run P 0 s w = (Returned, s, w)"
  by (simp add: run_def run_loop_funpow)

text \<open>Three cycles on an empty scheduler are three sleeps of 50 ms; none and a negative
  count are no tick at all.\<close>

theorem run_performs_cycles_ticks_witness:
  "run ideal 3 \<lparr>tasks = []\<rparr> 0 = (Returned, \<lparr>tasks = []\<rparr>, 150000000)
   \<and> run ideal 0 \<lparr>tasks = []\<rparr> 0 = (Returned, \<lparr>tasks = []\<rparr>, 0)
   \<and> run ideal (- 2) \<lparr>tasks = []\<rparr> 0 = (Returned, \<lparr>tasks = []\<rparr>, 0)"
  using run_performs_cycles_ticks [of ideal 3 "\<lparr>tasks = []\<rparr>" 0]
    run_performs_cycles_ticks [of ideal "- 2" "\<lparr>tasks = []\<rparr>" 0]
  by (simp add: eval_nat_numeral tick_def ideal_def milliseconds_def)

text \<open>
  C9. Whatever the actions do and however the run ends, \<^verbatim>\<open>run\<close> leaves the number of
  task records, and the action and the period of each record, as they were; only the due
  times can differ.
\<close>

theorem run_changes_only_nextRun:
  "length (tasks (fst (snd (run P cycles s w)))) = length (tasks s)
   \<and> map func (tasks (fst (snd (run P cycles s w)))) = map func (tasks s)
   \<and> map intervalMs (tasks (fst (snd (run P cycles s w)))) = map intervalMs (tasks s)"
proof -
  obtain st s' w' where r: "run_loop P 0 cycles s w = (st, s', w')"
    by (cases "run_loop P 0 cycles s w") auto
  from run_loop_frame [OF r] have
    "map func (tasks s') = map func (tasks s)"
    "map intervalMs (tasks s') = map intervalMs (tasks s)" by simp_all
  moreover from this(1) have "length (tasks s') = length (tasks s)"
    by (rule map_eq_imp_length_eq)
  ultimately show ?thesis using r by (simp add: run_def)
qed

section \<open>Controller and registration: properties\<close>

text \<open>
  C4. When \<^verbatim>\<open>init\<close> throws, \<^verbatim>\<open>addComponent\<close> throws too and the controller is as it
  was before the call: the component is not stored and no task is registered for it.
\<close>

theorem addComponent_init_throws:
  "init c w = (Threw, w') \<Longrightarrow>
     addComponent P c ms ctl w = (Threw, ctl, w')
     \<and> components (fst (snd (addComponent P c ms ctl w))) = components ctl
     \<and> tasks (scheduler (fst (snd (addComponent P c ms ctl w)))) = tasks (scheduler ctl)"
  by (simp add: addComponent_def)

theorem addComponent_init_throws_witness:
  "init \<lparr>cid = 0, init = (\<lambda>k. (Threw, Suc k)), update = (\<lambda>k. (Returned, k))\<rparr> (0::nat)
     = (Threw, 1)
   \<and> addComponent \<lparr>now = int, sleep_for = (\<lambda>d k. k)\<rparr>
        \<lparr>cid = 0, init = (\<lambda>k. (Threw, Suc k)), update = (\<lambda>k. (Returned, k))\<rparr> 500 fresh 0
     = (Threw, fresh, 1)"
proof -
  let ?c = "\<lparr>cid = 0, init = (\<lambda>k. (Threw, Suc k)), update = (\<lambda>k. (Returned, k))\<rparr> :: nat Component"
  have h: "init ?c 0 = (Threw, 1)" by simp
  from h addComponent_init_throws [OF h, of "\<lparr>now = int, sleep_for = (\<lambda>d k. k)\<rparr>" 500 fresh]
  show ?thesis by simp
qed

lemma run_first_tick:
  "0 < cycles \<Longrightarrow>
     run P cycles s w =
       (case tick P s w of
          (Threw, s', w') \<Rightarrow> (Threw, s', w')
        | (Returned, s', w') \<Rightarrow> run_loop P 1 cycles s' w')"
  by (simp add: run_def run_loop.simps [of P 0] split: prod.splits status.splits)

text \<open>
  C2. \<^verbatim>\<open>addTask\<close> appends one record, due at the clock reading of the registration.
  The clock is steady, so a run that starts later samples a time at or after that
  reading: the record is due on the first tick. There, once the actions of the records
  before it have returned (leaving the world \<open>w1\<close>), its action \<open>f\<close> is called on
  \<open>w1\<close>; the tick then goes on with the records after it, and the record is due next at
  the sample plus its period.
\<close>

theorem addTask_runs_on_first_tick:
  assumes "now P w0 \<le> now P w" and "0 < cycles"
    and "t = \<lparr>func = f, intervalMs = ms, nextRun = now P w0\<rparr>"
    and "tasks s = before @ t # after"
    and "run_tasks (now P w) before w = (Returned, before', w1)"
  shows "tasks (addTask P f ms s0 w0) = tasks s0 @ [t]
     \<and> run P cycles s w =
         (case f w1 of
            (Threw, w2) \<Rightarrow> (Threw, s\<lparr>tasks := before' @ t # after\<rparr>, w2)
          | (Returned, w2) \<Rightarrow>
              (case run_tasks (now P w) after w2 of
                 (Threw, after', w3) \<Rightarrow>
                   (Threw,
                    s\<lparr>tasks := before' @ t\<lparr>nextRun := now P w + milliseconds ms\<rparr> # after'\<rparr>,
                    w3)
               | (Returned, after', w3) \<Rightarrow>
                   run_loop P 1 cycles
                     (s\<lparr>tasks := before' @ t\<lparr>nextRun := now P w + milliseconds ms\<rparr> # after'\<rparr>)
                     (sleep_for P (milliseconds 50) w3)))"
proof -
  have a: "tasks (addTask P f ms s0 w0) = tasks s0 @ [t]"
    using assms(3) by (simp add: addTask_def)
  have due: "nextRun t \<le> now P w" and ft: "func t = f" and it: "intervalMs t = ms"
    using assms(1,3) by simp_all
  have "run_tasks (now P w) (tasks s) w =
      (case f w1 of
         (Threw, w2) \<Rightarrow> (Threw, before' @ t # after, w2)
       | (Returned, w2) \<Rightarrow>
           (case run_tasks (now P w) after w2 of
              (st, after', w3) \<Rightarrow>
                (st, before' @ t\<lparr>nextRun := now P w + milliseconds ms\<rparr> # after', w3)))"
    using assms(4,5) due ft it
    by (simp add: run_tasks_append reschedule_def split: prod.splits status.splits)
  then have "tick P s w =
      (case f w1 of
         (Threw, w2) \<Rightarrow> (Threw, s\<lparr>tasks := before' @ t # after\<rparr>, w2)
       | (Returned, w2) \<Rightarrow>
           (case run_tasks (now P w) after w2 of
              (Threw, after', w3) \<Rightarrow>
                (Threw,
                 s\<lparr>tasks := before' @ t\<lparr>nextRun := now P w + milliseconds ms\<rparr> # after'\<rparr>,
                 w3)
            | (Returned, after', w3) \<Rightarrow>
                (Returned,
                 s\<lparr>tasks := before' @ t\<lparr>nextRun := now P w + milliseconds ms\<rparr> # after'\<rparr>,
                 sleep_for P (milliseconds 50) w3)))"
    by (simp add: tick_def split: prod.splits status.splits)
  with run_first_tick [OF assms(2), of P s w] a show ?thesis
    by (simp split: prod.splits status.splits)
qed


theorem addTask_runs_on_first_tick_witness:
  "now \<lparr>now = fst, sleep_for = (\<lambda>d (t, L). (t + d, L))\<rparr> (0::int, [] :: string list)
     \<le> now \<lparr>now = fst, sleep_for = (\<lambda>d (t, L). (t + d, L))\<rparr> (5::int, [] :: string list)
   \<and> tasks (addTask \<lparr>now = fst, sleep_for = (\<lambda>d (t, L). (t + d, L))\<rparr>
        (\<lambda>(t, L). (Returned, (t, L @ [''f'']))) 500 \<lparr>tasks = []\<rparr> (0::int, [] :: string list))
     = [\<lparr>func = (\<lambda>(t, L). (Returned, (t, L @ [''f'']))), intervalMs = 500, nextRun = 0\<rparr>]
   \<and> run \<lparr>now = fst, sleep_for = (\<lambda>d (t, L). (t + d, L))\<rparr> 1
        (addTask \<lparr>now = fst, sleep_for = (\<lambda>d (t, L). (t + d, L))\<rparr>
          (\<lambda>(t, L). (Returned, (t, L @ [''f'']))) 500 \<lparr>tasks = []\<rparr> (0::int, [] :: string list))
        (5, [])
     = (Returned,
        \<lparr>tasks = [\<lparr>func = (\<lambda>(t, L). (Returned, (t, L @ [''f'']))), intervalMs = 500,
                    nextRun = 500000005\<rparr>]\<rparr>,
        (50000005, [''f'']))"
proof -
  let ?P = "\<lparr>now = fst, sleep_for = (\<lambda>d (t, L). (t + d, L))\<rparr> :: (int \<times> string list) platform"
  let ?f = "(\<lambda>(t, L). (Returned, (t, L @ [''f'']))) :: (int \<times> string list) callable"
  let ?t = "\<lparr>func = ?f, intervalMs = 500, nextRun = now ?P (0, [])\<rparr>"
  let ?s = "addTask ?P ?f 500 \<lparr>tasks = []\<rparr> (0, [])"
  have h1: "now ?P (0, []) \<le> now ?P (5, [])" by simp
  have h2: "(0::int) < 1" by simp
  have h4: "tasks ?s = [] @ ?t # []" by (simp add: addTask_def)
  have h5: "run_tasks (now ?P (5, [])) [] (5, []) = (Returned, [], (5, []))" by simp
  from addTask_runs_on_first_tick [OF h1 h2 refl h4 h5, of "\<lparr>tasks = []\<rparr>"] h1
  show ?thesis
    by (simp add: run_loop.simps addTask_def milliseconds_def)
qed

section \<open>Observation does not change the run\<close>

text \<open>A session with observed components and the session with the components
  themselves go through the same worlds, results and due times; the log is the only
  difference. What is proved of the call log below is therefore about the calls the
  controller makes on the components as given.\<close>

lemma session_snoc: "session P (rs @ [r]) w = serve P r (session P rs w)"
  by (simp add: session_def)

lemma same_task_reschedule:
  "same_task tT t \<Longrightarrow> same_task (reschedule n tT) (reschedule n t)"
  by (auto simp: same_task_def reschedule_def)

lemma run_tasks_transparent:
  "list_all2 same_task tsT ts \<Longrightarrow> run_tasks n tsT (w, L) = (st, tsT', (w', L')) \<Longrightarrow>
     \<exists>ts'. run_tasks n ts w = (st, ts', w') \<and> list_all2 same_task tsT' ts'"
proof (induction arbitrary: w L st tsT' w' L' rule: list_all2_induct)
  case Nil
  then show ?case by simp
next
  case (Cons tT tsT t ts)
  from Cons.hyps(1) obtain l where f: "func tT = logged l (func t)"
    and n: "nextRun tT = nextRun t"
    by (auto simp: same_task_def)
  show ?case
  proof (cases "nextRun t \<le> n")
    case False
    with n Cons.prems obtain tsT1 where
      r: "run_tasks n tsT (w, L) = (st, tsT1, (w', L'))" and t: "tsT' = tT # tsT1"
      by (auto split: prod.splits)
    from Cons.IH [OF r] obtain ts1 where
      "run_tasks n ts w = (st, ts1, w')" "list_all2 same_task tsT1 ts1" by blast
    with False t Cons.hyps(1) show ?thesis by simp
  next
    case True
    obtain st1 w1 where c: "func t w = (st1, w1)" by (cases "func t w") auto
    with f have cT: "func tT (w, L) = (st1, (w1, L @ [l]))" by (simp add: logged_def)
    show ?thesis
    proof (cases st1)
      case Threw
      with True n c cT Cons.prems Cons.hyps show ?thesis by auto
    next
      case Returned
      with True n cT Cons.prems obtain tsT1 where
        r: "run_tasks n tsT (w1, L @ [l]) = (st, tsT1, (w', L'))"
        and t: "tsT' = reschedule n tT # tsT1"
        by (auto split: prod.splits)
      from Cons.IH [OF r] obtain ts1 where
        "run_tasks n ts w1 = (st, ts1, w')" "list_all2 same_task tsT1 ts1" by blast
      with True Returned c t Cons.hyps(1) show ?thesis
        by (simp add: same_task_reschedule)
    qed
  qed
qed

lemma tick_transparent:
  assumes "list_all2 same_task (tasks sT) (tasks s)"
    and "tick (observed P) sT (w, L) = (st, sT', (w', L'))"
  shows "\<exists>s'. tick P s w = (st, s', w') \<and> list_all2 same_task (tasks sT') (tasks s')"
proof -
  obtain st1 tsT1 w1 L1 where
    r: "run_tasks (now P w) (tasks sT) (w, L) = (st1, tsT1, (w1, L1))"
    by (cases "run_tasks (now P w) (tasks sT) (w, L)") auto
  from run_tasks_transparent [OF assms(1) r] obtain ts1 where
    p: "run_tasks (now P w) (tasks s) w = (st1, ts1, w1)" "list_all2 same_task tsT1 ts1"
    by blast
  from assms(2) r p show ?thesis
    by (cases st1) (auto simp: tick_def observed_def)
qed

lemma run_loop_transparent:
  "list_all2 same_task (tasks sT) (tasks s) \<Longrightarrow>
   run_loop (observed P) i cycles sT (w, L) = (st, sT', (w', L')) \<Longrightarrow>
     \<exists>s'. run_loop P i cycles s w = (st, s', w') \<and> list_all2 same_task (tasks sT') (tasks s')"
proof (induction "nat (cycles - i)" arbitrary: i sT s w L)
  case 0
  then have "\<not> i < cycles" by simp
  with "0.prems" show ?case by (simp add: run_loop.simps)
next
  case (Suc k)
  then have lt: "i < cycles" and k: "k = nat (cycles - (i + 1))" by simp_all
  obtain st1 sT1 w1 L1 where t: "tick (observed P) sT (w, L) = (st1, sT1, (w1, L1))"
    by (cases "tick (observed P) sT (w, L)") auto
  from tick_transparent [OF Suc.prems(1) t] obtain s1 where
    p: "tick P s w = (st1, s1, w1)" "list_all2 same_task (tasks sT1) (tasks s1)" by blast
  show ?case
  proof (cases st1)
    case Threw
    with lt t p Suc.prems(2) show ?thesis
      by (auto simp: run_loop.simps [of _ i])
  next
    case Returned
    with lt t Suc.prems(2) have
      r: "run_loop (observed P) (i + 1) cycles sT1 (w1, L1) = (st, sT', (w', L'))"
      by (simp add: run_loop.simps [of _ i])
    from Suc.hyps(1) [OF k p(2) r] lt p(1) Returned show ?thesis
      by (simp add: run_loop.simps [of _ i])
  qed
qed

lemma serve_transparent:
  assumes "same_controller cT c"
    and "serve (observed P) (traced_request r) (cT, (w, L)) = (cT', (w', L'))"
  shows "\<exists>c'. serve P r (c, w) = (c', w') \<and> same_controller cT' c'"
proof (cases r)
  case (AddComponent x ms)
  obtain st1 w1 where i: "init x w = (st1, w1)" by (cases "init x w") auto
  then have iT: "init (traced x) (w, L) = (st1, (w1, L @ [InitCall (cid x)]))"
    by (simp add: traced_def logged_def)
  have "same_task \<lparr>func = update (traced x), intervalMs = ms, nextRun = now P w1\<rparr>
      \<lparr>func = update x, intervalMs = ms, nextRun = now P w1\<rparr>"
    by (auto simp: same_task_def traced_def)
  with assms AddComponent i iT show ?thesis
    by (cases st1)
      (auto simp: addComponent_def addTask_def same_controller_def observed_def
        list_all2_appendI)
next
  case (Run cycles)
  with assms(2) obtain st sT' where
    r: "run_loop (observed P) 0 cycles (scheduler cT) (w, L) = (st, sT', (w', L'))"
    and c: "cT' = cT\<lparr>scheduler := sT'\<rparr>"
    by (cases "run_loop (observed P) 0 cycles (scheduler cT) (w, L)")
      (auto simp: Controller_run_def run_def)
  from assms(1) have "list_all2 same_task (tasks (scheduler cT)) (tasks (scheduler c))"
    by (simp add: same_controller_def)
  from run_loop_transparent [OF this r] obtain s' where
    "run_loop P 0 cycles (scheduler c) w = (st, s', w')"
    "list_all2 same_task (tasks sT') (tasks s')" by blast
  with assms(1) c Run show ?thesis
    by (auto simp: Controller_run_def run_def same_controller_def)
qed

lemma session_transparent:
  "session (observed P) (map traced_request rs) (w, []) = (cT, (w', L)) \<Longrightarrow>
     \<exists>c. session P rs w = (c, w') \<and> same_controller cT c"
proof (induction rs arbitrary: cT w' L rule: rev_induct)
  case Nil
  then show ?case by (auto simp: session_def fresh_def same_controller_def)
next
  case (snoc r rs)
  obtain cT0 w0 L0 where
    s0: "session (observed P) (map traced_request rs) (w, []) = (cT0, (w0, L0))"
    by (cases "session (observed P) (map traced_request rs) (w, [])") auto
  from snoc.IH [OF s0] obtain c0 where
    p: "session P rs w = (c0, w0)" "same_controller cT0 c0" by blast
  from snoc.prems s0 have
    "serve (observed P) (traced_request r) (cT0, (w0, L0)) = (cT, (w', L))"
    by (simp add: session_snoc)
  from serve_transparent [OF p(2) this] p(1) show ?case
    by (simp add: session_snoc)
qed

section \<open>Component lifecycle\<close>

lemmas session_defs = call_log_def session_def fresh_def ideal_def stub_def
  observed_def traced_def logged_def addComponent_def addTask_def Controller_run_def run_def
  run_loop.simps tick_def reschedule_def milliseconds_def

lemma logged_apply:
  "logged l g (w, L) = (st, (w', L')) \<Longrightarrow> L' = L @ [l]"
  by (auto simp: logged_def split: prod.splits)

lemma only_updates_Nil: "only_updates L []"
  by (simp add: only_updates_def)

lemma only_updates_Cons:
  "InitCall x \<in> set L \<Longrightarrow> only_updates L M \<Longrightarrow> only_updates L (UpdateCall x # M)"
  by (simp add: only_updates_def)

lemma only_updates_append:
  "only_updates L M \<Longrightarrow> only_updates L M' \<Longrightarrow> only_updates L (M @ M')"
  by (auto simp: only_updates_def)

lemma run_tasks_log:
  "update_funcs L (map func ts) \<Longrightarrow> run_tasks n ts (w, L0) = (st, ts', (w', L')) \<Longrightarrow>
     \<exists>M. L' = L0 @ M \<and> only_updates L M"
proof (induction ts arbitrary: w L0 st ts' w' L')
  case Nil
  then show ?case by (simp add: only_updates_Nil)
next
  case (Cons t ts)
  from Cons.prems(1) have rest: "update_funcs L (map func ts)"
    by (simp add: update_funcs_def)
  from Cons.prems(1) obtain x g where
    f: "func t = logged (UpdateCall x) g" and x: "InitCall x \<in> set L"
    by (auto simp: update_funcs_def)
  show ?case
  proof (cases "nextRun t \<le> n")
    case False
    with Cons.prems(2) obtain ts1 where "run_tasks n ts (w, L0) = (st, ts1, (w', L'))"
      by (auto split: prod.splits)
    from Cons.IH [OF rest this] show ?thesis .
  next
    case True
    obtain st1 w1 L1 where c: "func t (w, L0) = (st1, (w1, L1))"
      by (cases "func t (w, L0)") auto
    with f have L1: "L1 = L0 @ [UpdateCall x]"
      by (auto dest: logged_apply)
    show ?thesis
    proof (cases st1)
      case Threw
      with True c Cons.prems(2) have "L' = L1" by simp
      with L1 x show ?thesis
        by (auto intro!: exI [of _ "[UpdateCall x]"] simp: only_updates_def)
    next
      case Returned
      with True c Cons.prems(2) obtain ts1 where
        "run_tasks n ts (w1, L1) = (st, ts1, (w', L'))"
        by (auto split: prod.splits)
      from Cons.IH [OF rest this] obtain M where "L' = L1 @ M" and "only_updates L M"
        by blast
      with L1 x show ?thesis
        by (auto intro!: exI [of _ "UpdateCall x # M"] simp: only_updates_Cons)
    qed
  qed
qed

lemma tick_log:
  assumes "update_funcs L (map func (tasks s))"
    and "tick (observed P) s (w, L0) = (st, s', (w', L'))"
  shows "\<exists>M. L' = L0 @ M \<and> only_updates L M"
proof -
  obtain st1 ts1 w1 L1 where
    r: "run_tasks (now (observed P) (w, L0)) (tasks s) (w, L0) = (st1, ts1, (w1, L1))"
    by (cases "run_tasks (now (observed P) (w, L0)) (tasks s) (w, L0)") auto
  from run_tasks_log [OF assms(1) r] obtain M where M: "L1 = L0 @ M" "only_updates L M"
    by blast
  from assms(2) r have "L' = L1"
    by (cases st1) (auto simp: tick_def observed_def)
  with M show ?thesis by blast
qed

lemma run_loop_log:
  "update_funcs L (map func (tasks s)) \<Longrightarrow>
   run_loop (observed P) i cycles s (w, L0) = (st, s', (w', L')) \<Longrightarrow>
     \<exists>M. L' = L0 @ M \<and> only_updates L M"
proof (induction "nat (cycles - i)" arbitrary: i s w L0)
  case 0
  then have "\<not> i < cycles" by simp
  with "0.prems"(2) have "L' = L0" by (simp add: run_loop.simps)
  then show ?case by (simp add: only_updates_Nil)
next
  case (Suc k)
  then have lt: "i < cycles" and k: "k = nat (cycles - (i + 1))" by simp_all
  obtain st1 s1 w1 L1 where t: "tick (observed P) s (w, L0) = (st1, s1, (w1, L1))"
    by (cases "tick (observed P) s (w, L0)") auto
  from tick_log [OF Suc.prems(1) t] obtain M1 where
    M1: "L1 = L0 @ M1" "only_updates L M1" by blast
  show ?case
  proof (cases st1)
    case Threw
    with lt t Suc.prems(2) have "L' = L1" by (simp add: run_loop.simps [of _ i])
    with M1 show ?thesis by blast
  next
    case Returned
    with lt t Suc.prems(2) have
      r: "run_loop (observed P) (i + 1) cycles s1 (w1, L1) = (st, s', (w', L'))"
      by (simp add: run_loop.simps [of _ i])
    from tick_frame [OF t] Suc.prems(1) have "update_funcs L (map func (tasks s1))"
      by simp
    from Suc.hyps(1) [OF k this r] obtain M2 where
      M2: "L' = L1 @ M2" "only_updates L M2" by blast
    with M1 show ?thesis
      by (auto intro!: exI [of _ "M1 @ M2"] simp: only_updates_append)
  qed
qed

lemma init_first_append:
  assumes "init_first L" and "only_updates L M"
  shows "init_first (L @ M)"
  unfolding init_first_def
proof (intro allI impI)
  fix i x
  assume i: "i < length (L @ M)" and u: "(L @ M) ! i = UpdateCall x"
  show "InitCall x \<in> set (take i (L @ M))"
  proof (cases "i < length L")
    case True
    with assms(1) u show ?thesis by (auto simp: init_first_def nth_append)
  next
    case False
    with i have "i - length L < length M" by simp
    then have "M ! (i - length L) \<in> set M" by (rule nth_mem)
    with False u have "UpdateCall x \<in> set M" by (simp add: nth_append)
    with assms(2) have "InitCall x \<in> set L" by (auto simp: only_updates_def)
    with False show ?thesis by simp
  qed
qed

lemma init_first_snoc_init: "init_first L \<Longrightarrow> init_first (L @ [InitCall x])"
  unfolding init_first_def
  by (auto simp: nth_append less_Suc_eq)

lemma count_only_updates:
  "only_updates L M \<Longrightarrow> count_list M (InitCall x) = 0"
  by (induction M) (auto simp: only_updates_def)

lemma update_funcs_mono:
  "update_funcs L fs \<Longrightarrow> set L \<subseteq> set L' \<Longrightarrow> update_funcs L' fs"
  unfolding update_funcs_def by blast


lemma update_funcs_append:
  "update_funcs L (fs @ gs) = (update_funcs L fs \<and> update_funcs L gs)"
  unfolding update_funcs_def by auto

lemma addComponent_log:
  assumes "addComponent (observed P) (traced c) ms ctl (w, L) = (st, ctl', (w', L'))"
  shows "L' = L @ [InitCall (cid c)]
    \<and> (map func (tasks (scheduler ctl')) = map func (tasks (scheduler ctl))
        \<or> map func (tasks (scheduler ctl'))
            = map func (tasks (scheduler ctl)) @ [logged (UpdateCall (cid c)) (update c)])"
proof -
  obtain st1 w1 L1 where i: "init (traced c) (w, L) = (st1, (w1, L1))"
    by (cases "init (traced c) (w, L)") auto
  then have "L1 = L @ [InitCall (cid c)]"
    by (auto simp: traced_def dest: logged_apply)
  with assms i show ?thesis
    by (cases st1) (auto simp: addComponent_def addTask_def traced_def)
qed

lemma session_invariant:
  "session (observed P) (map traced_request rs) (w, []) = (ctl, (w', L)) \<Longrightarrow>
     update_funcs L (map func (tasks (scheduler ctl)))
     \<and> init_first L
     \<and> count_list L (InitCall x) = length (filter (adds x) rs)"
proof (induction rs arbitrary: ctl w' L rule: rev_induct)
  case Nil
  then show ?case
    by (auto simp: session_def fresh_def update_funcs_def init_first_def)
next
  case (snoc r rs)
  obtain ctl0 w0 L0 where
    s0: "session (observed P) (map traced_request rs) (w, []) = (ctl0, (w0, L0))"
    by (cases "session (observed P) (map traced_request rs) (w, [])") auto
  note ih = snoc.IH [OF s0]
  from snoc.prems s0 have step: "serve (observed P) (traced_request r) (ctl0, (w0, L0)) = (ctl, (w', L))"
    by (simp add: session_snoc)
  show ?case
  proof (cases r)
    case (AddComponent c ms)
    with step obtain st where
      a: "addComponent (observed P) (traced c) ms ctl0 (w0, L0) = (st, ctl, (w', L))"
      by (cases "addComponent (observed P) (traced c) ms ctl0 (w0, L0)") auto
    from addComponent_log [OF a] have L: "L = L0 @ [InitCall (cid c)]"
      and fs: "map func (tasks (scheduler ctl)) = map func (tasks (scheduler ctl0))
        \<or> map func (tasks (scheduler ctl))
            = map func (tasks (scheduler ctl0)) @ [logged (UpdateCall (cid c)) (update c)]"
      by simp_all
    from ih have "update_funcs L (map func (tasks (scheduler ctl0)))"
      using L by (auto intro: update_funcs_mono)
    moreover have "update_funcs L [logged (UpdateCall (cid c)) (update c)]"
      using L by (auto simp: update_funcs_def)
    ultimately have "update_funcs L (map func (tasks (scheduler ctl)))"
      using fs by (elim disjE) (simp_all add: update_funcs_append)
    moreover from ih L have "init_first L" by (simp add: init_first_snoc_init)
    moreover from ih L AddComponent
    have "count_list L (InitCall x) = length (filter (adds x) (rs @ [r]))" by auto
    ultimately show ?thesis by simp
  next
    case (Run cycles)
    with step obtain st s' where
      r: "run_loop (observed P) 0 cycles (scheduler ctl0) (w0, L0) = (st, s', (w', L))"
      and c: "ctl = ctl0\<lparr>scheduler := s'\<rparr>"
      by (cases "run_loop (observed P) 0 cycles (scheduler ctl0) (w0, L0)")
        (auto simp: Controller_run_def run_def)
    from ih have u0: "update_funcs L0 (map func (tasks (scheduler ctl0)))" by simp
    from run_loop_log [OF u0 r] obtain M where M: "L = L0 @ M" "only_updates L0 M"
      by blast
    from run_loop_frame [OF r] c u0 M(1)
    have "update_funcs L (map func (tasks (scheduler ctl)))"
      by (auto intro: update_funcs_mono)
    moreover from ih M have "init_first L" by (simp add: init_first_append)
    moreover from ih M Run
    have "count_list L (InitCall x) = length (filter (adds x) (rs @ [r]))"
      by (simp add: count_only_updates)
    ultimately show ?thesis by simp
  qed
qed

text \<open>
  C3, as the code has it. A client makes any sequence of \<^verbatim>\<open>addComponent\<close> and
  \<^verbatim>\<open>run\<close> calls on a new controller, with any components, periods, cycle counts and
  platform, and with \<^verbatim>\<open>init\<close> and \<^verbatim>\<open>update\<close> bodies that may throw. In the log of
  the calls made on components: \<^verbatim>\<open>init\<close> of a component is called once for each
  \<^verbatim>\<open>addComponent\<close> call that passes it (so exactly once when it is passed once), and
  every call of \<^verbatim>\<open>update\<close> of a component comes after a call of \<^verbatim>\<open>init\<close> of that
  component.
\<close>

theorem init_before_update:
  "count_list (call_log P rs w) (InitCall x) = length (filter (adds x) rs)
   \<and> (\<forall>L1 L2. call_log P rs w = L1 @ UpdateCall x # L2 \<longrightarrow> InitCall x \<in> set L1)"
proof -
  obtain ctl w' L where
    s: "session (observed P) (map traced_request rs) (w, []) = (ctl, (w', L))"
    by (cases "session (observed P) (map traced_request rs) (w, [])") auto
  then have L: "call_log P rs w = L" by (simp add: call_log_def)
  from session_invariant [OF s, of x] have
    f: "init_first L" and n: "count_list L (InitCall x) = length (filter (adds x) rs)"
    by simp_all
  have "InitCall x \<in> set L1" if "L = L1 @ UpdateCall x # L2" for L1 L2
  proof -
    from that have "length L1 < length L" and "L ! length L1 = UpdateCall x"
      and "take (length L1) L = L1" by simp_all
    with f show ?thesis unfolding init_first_def by metis
  qed
  with n L show ?thesis by simp
qed

theorem init_before_update_witness:
  "count_list (call_log ideal [AddComponent (stub 0) 500, Run 1] 0) (InitCall 0)
     = length (filter (adds 0) [AddComponent (stub 0) 500, Run 1 :: time request])
   \<and> call_log ideal [AddComponent (stub 0) 500, Run 1] 0 = [InitCall 0] @ UpdateCall 0 # []
   \<and> InitCall 0 \<in> set [InitCall 0]"
proof -
  have l: "call_log ideal [AddComponent (stub 0) 500, Run 1] 0 = [InitCall 0] @ UpdateCall 0 # []"
    by (simp add: session_defs)
  from init_before_update [of ideal "[AddComponent (stub 0) 500, Run 1]" 0 0] l
  show ?thesis by (simp add: stub_def)
qed

text \<open>
  C3 as stated fails for a component that is passed twice: \<^verbatim>\<open>init\<close> is called at each
  registration, here a second time after an \<^verbatim>\<open>update\<close>.
\<close>

theorem init_twice_counterexample:
  "call_log ideal [AddComponent (stub 0) 500, Run 1, AddComponent (stub 0) 700] 0
     = [InitCall 0, UpdateCall 0, InitCall 0]
   \<and> count_list (call_log ideal [AddComponent (stub 0) 500, Run 1, AddComponent (stub 0) 700] 0)
       (InitCall 0) = 2"
  by (simp add: session_defs)

section \<open>The example schedule: properties\<close>

text \<open>
  C8 as stated fails: component \<open>1\<close> (period 700 ms) is updated within the run of 10
  cycles, and component \<open>0\<close> (period 500 ms) is updated already in a run of one cycle,
  that is on the tick sampled at the start and not near 500 ms.
\<close>

theorem example_counterexample:
  "count_list (call_log ideal (example 10) 0) (UpdateCall 1) = 1
   \<and> count_list (call_log ideal (example 1) 0) (UpdateCall 0) = 1"
  by (simp add: example_def session_defs)

text \<open>
  C8, as the code has it. With both components added at time \<open>t0\<close> and ticks exactly
  50 ms apart, each component is updated exactly once in the run of 10 cycles, and that
  is on the first tick, sampled at \<open>t0\<close>: the log after one cycle is already the log
  after ten. After the run the components are due at \<open>t0\<close> plus 500 ms and plus 700 ms,
  and the clock reads \<open>t0\<close> plus 500 ms; the second update of component \<open>0\<close> takes an
  eleventh tick.
\<close>

theorem example_schedule:
  "call_log ideal (example 1) t0 = [InitCall 0, InitCall 1, UpdateCall 0, UpdateCall 1]
   \<and> call_log ideal (example 10) t0 = [InitCall 0, InitCall 1, UpdateCall 0, UpdateCall 1]
   \<and> map nextRun (tasks (scheduler (fst (session ideal (example 10) t0))))
       = [t0 + milliseconds 500, t0 + milliseconds 700]
   \<and> snd (session ideal (example 10) t0) = t0 + milliseconds 500
   \<and> call_log ideal (example 11) t0
       = [InitCall 0, InitCall 1, UpdateCall 0, UpdateCall 1, UpdateCall 0]"
  by (simp add: example_def session_defs)

end
